theory Spec2Isabelle
  imports Complex_Main "HOL-Library.AList"
begin

section \<open>PageRank: the transition model, the sampling ranker and the iterative ranker\<close>

text \<open>
  A shallow embedding of \<^verbatim>\<open>pagerank.py\<close>. Python's floats are read as real
  numbers, so the statements below are statements of exact arithmetic; the one place
  where rounding decides a claim, the example of the transition model, also has a model
  in double precision (\<open>transition_model_double\<close>). A Python \<^verbatim>\<open>dict\<close> is an association list in insertion order whose keys
  are distinct, and a Python \<^verbatim>\<open>set\<close> of pages is a list of distinct pages (the
  order in which the set is iterated).
\<close>

subsection \<open>Data model\<close>

type_synonym page = string

text \<open>The corpus: each page with the set of pages it links to.\<close>

type_synonym corpus = "(page \<times> page list) list"

text \<open>A probability distribution or a rank mapping: each page with a number.\<close>

type_synonym dist = "(page \<times> real) list"

text \<open>The exceptions the code can raise, itself or through the standard library.\<close>

datatype error = KeyError | IndexError | ZeroDivisionError | ValueError

text \<open>
  What the input type guarantees: the keys of a \<^verbatim>\<open>dict\<close> are distinct, and so are
  the elements of each \<^verbatim>\<open>set\<close> of links.
\<close>

definition is_corpus :: "corpus \<Rightarrow> bool" where
  "is_corpus corpus \<longleftrightarrow>
     distinct (map fst corpus) \<and> list_all (\<lambda>(page, links). distinct links) corpus"

text \<open>
  The link graph invariants of the crawler's output (\<^verbatim>\<open>crawl\<close>): every link points
  to a page of the corpus, and no page links to itself.
\<close>

definition valid_corpus :: "corpus \<Rightarrow> bool" where
  "valid_corpus corpus \<longleftrightarrow>
     is_corpus corpus \<and>
     list_all (\<lambda>(page, links). list_all (\<lambda>link. link \<in> fst ` set corpus \<and> link \<noteq> page) links) corpus"

subsection \<open>Dictionary operations\<close>

text \<open>
  \<^verbatim>\<open>for k in keys: d[k] = v\<close> on a fresh dictionary. \<^const>\<open>AList.update\<close> is
  Python's item assignment: it overwrites the value of a key that is present, in place,
  and appends a key that is not.
\<close>

definition dict_fill :: "page list \<Rightarrow> real \<Rightarrow> dist" where
  "dict_fill keys v = fold (\<lambda>k d. AList.update k v d) keys []"

text \<open>\<^verbatim>\<open>d[k] += x\<close>: a \<^verbatim>\<open>KeyError\<close> when the key is missing.\<close>

definition dict_add :: "page \<Rightarrow> real \<Rightarrow> dist \<Rightarrow> error + dist" where
  "dict_add k x d =
     (case map_of d k of
        None \<Rightarrow> Inl KeyError
      | Some v \<Rightarrow> Inr (AList.update k (v + x) d))"

subsection \<open>The transition model\<close>

text \<open>
  \<^verbatim>\<open>for link in corpus[page]: prob[link] += damping_factor/len(corpus[page])\<close>,
  with the increment \<open>x\<close> computed by the caller: inside the loop the set is not empty,
  so the division never has a zero divisor.
\<close>

fun add_links :: "dist \<Rightarrow> page list \<Rightarrow> real \<Rightarrow> error + dist" where
  "add_links prob [] x = Inr prob"
| "add_links prob (link # links) x =
     (case dict_add link x prob of
        Inl e \<Rightarrow> Inl e
      | Inr prob' \<Rightarrow> add_links prob' links x)"

text \<open>
  \<^verbatim>\<open>transition_model(corpus, page, damping_factor)\<close>. The first loop gives every
  page \<open>(1 - damping_factor) / len(corpus)\<close> (it does not run on an empty corpus, so it
  never divides by zero); \<^verbatim>\<open>corpus[page]\<close> raises \<^verbatim>\<open>KeyError\<close> for a page that is
  not a key; the second loop adds \<open>damping_factor / len(corpus[page])\<close> to each linked
  page.
\<close>

definition transition_model :: "corpus \<Rightarrow> page \<Rightarrow> real \<Rightarrow> error + dist" where
  "transition_model corpus page damping_factor =
     (let prob = dict_fill (map fst corpus) ((1 - damping_factor) / real (length corpus))
      in case map_of corpus page of
           None \<Rightarrow> Inl KeyError
         | Some links \<Rightarrow> add_links prob links (damping_factor / real (length links)))"

subsection \<open>The random source\<close>

text \<open>
  The generator of Python's \<^verbatim>\<open>random\<close> module is a parameter of the model: \<open>rnd i\<close>
  is the raw number behind the \<open>i\<close>-th call. \<^verbatim>\<open>random.choice(seq)\<close> raises
  \<^verbatim>\<open>IndexError\<close> on an empty sequence and otherwise returns the element at an index
  below \<open>len(seq)\<close>.
\<close>

definition random_choice :: "nat \<Rightarrow> 'a list \<Rightarrow> error + 'a" where
  "random_choice r seq =
     (if seq = [] then Inl IndexError else Inr (seq ! (r mod length seq)))"

text \<open>\<^verbatim>\<open>random.random()\<close>: a multiple of \<open>2\<^sup>-\<^sup>5\<^sup>3\<close> in \<open>[0, 1)\<close>.\<close>

definition random_unit :: "nat \<Rightarrow> real" where
  "random_unit r = real (r mod 2 ^ 53) / 2 ^ 53"

text \<open>\<^verbatim>\<open>itertools.accumulate(weights)\<close>: the running totals.\<close>

fun accumulate :: "real \<Rightarrow> real list \<Rightarrow> real list" where
  "accumulate acc [] = []"
| "accumulate acc (w # ws) = (acc + w) # accumulate (acc + w) ws"

text \<open>\<^verbatim>\<open>bisect.bisect_right(a, x, lo, hi)\<close>, the binary search as the library runs it.\<close>

function bisect :: "real list \<Rightarrow> real \<Rightarrow> nat \<Rightarrow> nat \<Rightarrow> nat" where
  "bisect a x lo hi =
     (if lo < hi
      then (let mid = (lo + hi) div 2
            in if x < a ! mid then bisect a x lo mid else bisect a x (mid + 1) hi)
      else lo)"
  by pat_completeness auto
termination
  by (relation "measure (\<lambda>(a, x, lo, hi). hi - lo)") auto

declare bisect.simps [simp del]

text \<open>
  \<^verbatim>\<open>random.choices(population, weights=weights, k=1)[0]\<close>: the element whose
  interval of cumulative weight holds \<open>random() * total\<close>. The library raises
  \<^verbatim>\<open>ValueError\<close> when the two lists differ in length or when the total weight is not
  positive, and \<^verbatim>\<open>IndexError\<close> when there is no weight at all.
\<close>

definition random_choices :: "nat \<Rightarrow> 'a list \<Rightarrow> real list \<Rightarrow> error + 'a" where
  "random_choices r population weights =
     (let cum_weights = accumulate 0 weights
      in if length cum_weights \<noteq> length population then Inl ValueError
         else if cum_weights = [] then Inl IndexError
         else (let total_weight = last cum_weights
               in if total_weight \<le> 0 then Inl ValueError
                  else Inr (population !
                    bisect cum_weights (random_unit r * total_weight) 0 (length population - 1))))"

subsection \<open>The sampling ranker\<close>

text \<open>
  \<^verbatim>\<open>prank[page] += 1/n\<close>: the item is read first (\<^verbatim>\<open>KeyError\<close>), then \<open>1/n\<close> is
  computed (\<^verbatim>\<open>ZeroDivisionError\<close> when \<open>n = 0\<close>).
\<close>

definition count_visit :: "int \<Rightarrow> page \<Rightarrow> dist \<Rightarrow> error + dist" where
  "count_visit n page prank =
     (case map_of prank page of
        None \<Rightarrow> Inl KeyError
      | Some v \<Rightarrow>
          if n = 0 then Inl ZeroDivisionError
          else Inr (AList.update page (v + 1 / real_of_int n) prank))"

text \<open>
  The loop \<^verbatim>\<open>for i in range(n)\<close>, with \<open>k\<close> iterations left; \<open>i\<close> counts the calls
  made to the random source so far.
\<close>

fun sample_loop ::
  "corpus \<Rightarrow> real \<Rightarrow> int \<Rightarrow> (nat \<Rightarrow> nat) \<Rightarrow> nat \<Rightarrow> nat \<Rightarrow> page \<Rightarrow> dist \<Rightarrow> error + dist" where
  "sample_loop corpus damping_factor n rnd 0 i page prank = Inr prank"
| "sample_loop corpus damping_factor n rnd (Suc k) i page prank =
     (case transition_model corpus page damping_factor of
        Inl e \<Rightarrow> Inl e
      | Inr distribution \<Rightarrow>
          (case random_choices (rnd i) (map fst distribution) (map snd distribution) of
             Inl e \<Rightarrow> Inl e
           | Inr page' \<Rightarrow>
               (case count_visit n page' prank of
                  Inl e \<Rightarrow> Inl e
                | Inr prank' \<Rightarrow> sample_loop corpus damping_factor n rnd k (Suc i) page' prank')))"

text \<open>
  \<^verbatim>\<open>sample_pagerank(corpus, damping_factor, n)\<close>: every counter starts at 0, the
  first page is drawn uniformly and counted, and then the loop runs \<open>n\<close> times
  (\<^verbatim>\<open>range(n)\<close> is empty for \<open>n \<le> 0\<close>).
\<close>

definition sample_pagerank :: "corpus \<Rightarrow> real \<Rightarrow> int \<Rightarrow> (nat \<Rightarrow> nat) \<Rightarrow> error + dist" where
  "sample_pagerank corpus damping_factor n rnd =
     (let prank = dict_fill (map fst corpus) 0
      in case random_choice (rnd 0) (map fst corpus) of
           Inl e \<Rightarrow> Inl e
         | Inr page \<Rightarrow>
             (case count_visit n page prank of
                Inl e \<Rightarrow> Inl e
              | Inr prank' \<Rightarrow> sample_loop corpus damping_factor n rnd (nat n) 1 page prank'))"

text \<open>
  The pages the surfer visits, in order: the values the variable \<^verbatim>\<open>page\<close> takes in
  \<^verbatim>\<open>sample_pagerank\<close>. This is the same walk with the counting left out.
\<close>

fun walk_loop :: "corpus \<Rightarrow> real \<Rightarrow> (nat \<Rightarrow> nat) \<Rightarrow> nat \<Rightarrow> nat \<Rightarrow> page \<Rightarrow> error + page list" where
  "walk_loop corpus damping_factor rnd 0 i page = Inr []"
| "walk_loop corpus damping_factor rnd (Suc k) i page =
     (case transition_model corpus page damping_factor of
        Inl e \<Rightarrow> Inl e
      | Inr distribution \<Rightarrow>
          (case random_choices (rnd i) (map fst distribution) (map snd distribution) of
             Inl e \<Rightarrow> Inl e
           | Inr page' \<Rightarrow>
               (case walk_loop corpus damping_factor rnd k (Suc i) page' of
                  Inl e \<Rightarrow> Inl e
                | Inr pages \<Rightarrow> Inr (page' # pages))))"

definition sample_walk :: "corpus \<Rightarrow> real \<Rightarrow> int \<Rightarrow> (nat \<Rightarrow> nat) \<Rightarrow> error + page list" where
  "sample_walk corpus damping_factor n rnd =
     (case random_choice (rnd 0) (map fst corpus) of
        Inl e \<Rightarrow> Inl e
      | Inr page \<Rightarrow>
          (case walk_loop corpus damping_factor rnd (nat n) 1 page of
             Inl e \<Rightarrow> Inl e
           | Inr pages \<Rightarrow> Inr (page # pages)))"

subsection \<open>The iterative ranker\<close>

text \<open>
  \<^verbatim>\<open>rank[page]\<close> inside \<^verbatim>\<open>iterate_pagerank\<close>. The dictionary \<^verbatim>\<open>rank\<close> is filled
  with every key of the corpus before the loop and only those keys are ever asked for
  or assigned, so the lookup always finds the key (lemmas \<open>keys_dict_fill\<close> and
  \<open>keys_pass\<close> below); the value for a missing key is never used.
\<close>

definition rank_get :: "dist \<Rightarrow> page \<Rightarrow> real" where
  "rank_get rank page = (case map_of rank page of Some v \<Rightarrow> v | None \<Rightarrow> 0)"

text \<open>
  The inner loop \<^verbatim>\<open>for link in corpus\<close> over the entries of the corpus that are left,
  with \<open>N = len(corpus)\<close>. Both divisions have a positive divisor: the first is guarded
  by \<^verbatim>\<open>web in corpus[link]\<close>, the second runs inside a loop over the corpus.
\<close>

fun sigma_loop :: "nat \<Rightarrow> page \<Rightarrow> dist \<Rightarrow> corpus \<Rightarrow> real \<Rightarrow> real" where
  "sigma_loop N web rank [] sigma = sigma"
| "sigma_loop N web rank ((link, links) # rest) sigma =
     sigma_loop N web rank rest
       (if web \<in> set links then sigma + rank_get rank link / real (length links)
        else if links = [] then sigma + rank_get rank link / real N
        else sigma)"

text \<open>
  The outer loop \<^verbatim>\<open>for web in corpus\<close> over the pages that are left. The dictionary
  \<^verbatim>\<open>rank\<close> is updated in place, page by page.
\<close>

fun pass_loop :: "corpus \<Rightarrow> real \<Rightarrow> page list \<Rightarrow> dist \<Rightarrow> nat \<Rightarrow> dist \<times> nat" where
  "pass_loop corpus damping_factor [] rank count = (rank, count)"
| "pass_loop corpus damping_factor (web # webs) rank count =
     (let sigma = sigma_loop (length corpus) web rank corpus 0;
          prob = (1 - damping_factor) / real (length corpus) + damping_factor * sigma;
          count' = (if \<bar>rank_get rank web - prob\<bar> \<le> 1 / 1000 then count + 1 else count)
      in pass_loop corpus damping_factor webs (AList.update web prob rank) count')"

text \<open>One run of the body of \<^verbatim>\<open>while check\<close>: the new ranks and the final \<^verbatim>\<open>count\<close>.\<close>

definition pass :: "corpus \<Rightarrow> real \<Rightarrow> dist \<Rightarrow> dist \<times> nat" where
  "pass corpus damping_factor rank = pass_loop corpus damping_factor (map fst corpus) rank 0"

text \<open>
  \<^verbatim>\<open>while check\<close>: the loop has no bound, so it is a partial function and \<open>None\<close>
  stands for a run that never returns.
\<close>

partial_function (option) iterate_loop :: "corpus \<Rightarrow> real \<Rightarrow> dist \<Rightarrow> dist option" where
  "iterate_loop corpus damping_factor rank =
     (case pass corpus damping_factor rank of
        (rank', count) \<Rightarrow>
          if count \<ge> length corpus then Some rank'
          else iterate_loop corpus damping_factor rank')"

definition iterate_pagerank :: "corpus \<Rightarrow> real \<Rightarrow> dist option" where
  "iterate_pagerank corpus damping_factor =
     iterate_loop corpus damping_factor
       (dict_fill (map fst corpus) (1 / real (length corpus)))"

declare iterate_loop.simps [code]

text \<open>
  One pass as the specification describes it, for comparison with \<^const>\<open>pass\<close>: the
  new rank of every page is computed from the ranks as they stood when the pass began.
\<close>

definition snapshot_pass :: "corpus \<Rightarrow> real \<Rightarrow> dist \<Rightarrow> dist" where
  "snapshot_pass corpus damping_factor rank =
     map (\<lambda>web. (web, (1 - damping_factor) / real (length corpus)
                        + damping_factor * sigma_loop (length corpus) web rank corpus 0))
       (map fst corpus)"

text \<open>The ranks after \<open>k\<close> runs of the body of \<^verbatim>\<open>while check\<close>.\<close>

fun ranks_after :: "corpus \<Rightarrow> real \<Rightarrow> nat \<Rightarrow> dist \<Rightarrow> dist" where
  "ranks_after corpus damping_factor 0 rank = rank"
| "ranks_after corpus damping_factor (Suc k) rank =
     ranks_after corpus damping_factor k (fst (pass corpus damping_factor rank))"

subsection \<open>The transition model in double precision\<close>

text \<open>
  A Python \<^verbatim>\<open>float\<close> is an IEEE 754 double: 53 significant bits, and every
  arithmetic operation returns the exact result rounded to the nearest double, a tie
  going to the double whose last bit is 0.
\<close>

text \<open>Round to the nearest integer, a tie going to the even one.\<close>

definition round_half_even :: "real \<Rightarrow> int" where
  "round_half_even y =
     (let f = \<lfloor>y\<rfloor>
      in if y - of_int f < 1 / 2 then f
         else if 1 / 2 < y - of_int f then f + 1
         else if even f then f else f + 1)"

text \<open>
  The binary exponent of a positive number: the \<open>e\<close> with \<open>2\<^sup>e \<le> x < 2\<^sup>e\<^sup>+\<^sup>1\<close>, found
  by halving or doubling \<open>x\<close> at most \<open>fuel\<close> times (lemma \<open>exponent_of_bounds\<close>).
\<close>

fun exponent_of :: "nat \<Rightarrow> real \<Rightarrow> int" where
  "exponent_of 0 x = 0"
| "exponent_of (Suc fuel) x =
     (if 2 \<le> x then exponent_of fuel (x / 2) + 1
      else if x < 1 then exponent_of fuel (x * 2) - 1
      else 0)"

text \<open>
  The double nearest to \<open>x\<close>. Doubles with exponent \<open>e\<close> are the multiples of
  \<open>2\<^sup>e\<^sup>-\<^sup>5\<^sup>2\<close>; below \<open>2\<^sup>-\<^sup>1\<^sup>0\<^sup>2\<^sup>2\<close> the spacing stays \<open>2\<^sup>-\<^sup>1\<^sup>0\<^sup>7\<^sup>4\<close>. The fuel covers every
  exponent of the format. A result of magnitude \<open>2\<^sup>1\<^sup>0\<^sup>2\<^sup>4\<close> or more is an infinity in
  Python; that case is not modelled, and no number below comes near it.
\<close>

definition float_round :: "real \<Rightarrow> real" where
  "float_round x =
     (if x = 0 then 0
      else (let e = max (exponent_of 2200 \<bar>x\<bar>) (- 1022);
                quantum = 2 powi (e - 52)
            in of_int (round_half_even (x / quantum)) * quantum))"

text \<open>\<^verbatim>\<open>d[k] += x\<close> on floats: the sum is rounded.\<close>

definition dict_add_double :: "page \<Rightarrow> real \<Rightarrow> dist \<Rightarrow> error + dist" where
  "dict_add_double k x d =
     (case map_of d k of
        None \<Rightarrow> Inl KeyError
      | Some v \<Rightarrow> Inr (AList.update k (float_round (v + x)) d))"

fun add_links_double :: "dist \<Rightarrow> page list \<Rightarrow> real \<Rightarrow> error + dist" where
  "add_links_double prob [] x = Inr prob"
| "add_links_double prob (link # links) x =
     (case dict_add_double link x prob of
        Inl e \<Rightarrow> Inl e
      | Inr prob' \<Rightarrow> add_links_double prob' links x)"

text \<open>
  \<^verbatim>\<open>transition_model\<close> with the rounding of each of its operations written out:
  the subtraction \<open>1 - damping_factor\<close>, the two divisions (the lengths are small
  integers, which convert to doubles exactly) and the additions of the second loop.
  The damping factor is a double.
\<close>

definition transition_model_double :: "corpus \<Rightarrow> page \<Rightarrow> real \<Rightarrow> error + dist" where
  "transition_model_double corpus page damping_factor =
     (let prob = dict_fill (map fst corpus)
            (float_round (float_round (1 - damping_factor) / real (length corpus)))
      in case map_of corpus page of
           None \<Rightarrow> Inl KeyError
         | Some links \<Rightarrow>
             add_links_double prob links (float_round (damping_factor / real (length links))))"

subsection \<open>Example corpora\<close>

text \<open>The corpus of the example in the comments of \<^verbatim>\<open>transition_model\<close>.\<close>

definition example_corpus :: corpus where
  "example_corpus =
     [(''1.html'', [''2.html'', ''3.html'']), (''2.html'', [''3.html'']), (''3.html'', [''2.html''])]"

text \<open>A page without links, and a page that links to it.\<close>

definition dangling_corpus :: corpus where
  "dangling_corpus = [(''1.html'', []), (''2.html'', [''1.html''])]"

text \<open>Two pages that link to each other.\<close>

definition two_cycle :: corpus where
  "two_cycle = [(''a'', [''b'']), (''b'', [''a''])]"

text \<open>Two pages that link to each other, and a third that links to the first.\<close>

definition three_pages :: corpus where
  "three_pages = [(''a'', [''b'']), (''b'', [''a'']), (''c'', [''a''])]"

text \<open>A cycle \<open>a \<rightarrow> c \<rightarrow> b \<rightarrow> a\<close>, and a fourth page that links into it.\<close>

definition four_pages :: corpus where
  "four_pages = [(''a'', [''c'']), (''b'', [''a'']), (''c'', [''b'']), (''x'', [''a''])]"

section \<open>Dictionaries with distinct keys\<close>

lemma update_fresh: "k \<notin> fst ` set d \<Longrightarrow> AList.update k v d = d @ [(k, v)]"
  by (induction d) auto

lemma fold_update_fresh:
  "distinct ks \<Longrightarrow> set ks \<inter> fst ` set acc = {} \<Longrightarrow>
   fold (\<lambda>k d. AList.update k v d) ks acc = acc @ map (\<lambda>k. (k, v)) ks"
proof (induction ks arbitrary: acc)
  case Nil
  then show ?case by simp
next
  case (Cons k ks)
  have fresh: "k \<notin> fst ` set acc" using Cons.prems by auto
  have "set ks \<inter> fst ` set (acc @ [(k, v)]) = {}" using Cons.prems by auto
  with Cons have "fold (\<lambda>k d. AList.update k v d) ks (acc @ [(k, v)])
      = (acc @ [(k, v)]) @ map (\<lambda>k. (k, v)) ks"
    by simp
  then show ?case by (simp add: update_fresh [OF fresh])
qed

lemma dict_fill_distinct: "distinct ks \<Longrightarrow> dict_fill ks v = map (\<lambda>k. (k, v)) ks"
  using fold_update_fresh [of ks "[]" v] by (simp add: dict_fill_def)

lemma map_absent:
  "k \<notin> fst ` set d \<Longrightarrow> map (\<lambda>(k', v'). (k', if k' = k then v else v')) d = d"
  by (induction d) auto

lemma update_present:
  "distinct (map fst d) \<Longrightarrow> k \<in> fst ` set d \<Longrightarrow>
   AList.update k v d = map (\<lambda>(k', v'). (k', if k' = k then v else v')) d"
  by (induction d) (auto simp: map_absent)

lemma dict_add_present:
  assumes "distinct ks" "k \<in> set ks"
  shows "dict_add k x (map (\<lambda>p. (p, f p)) ks)
    = Inr (map (\<lambda>p. (p, f p + (if p = k then x else 0))) ks)"
proof -
  have m: "map_of (map (\<lambda>p. (p, f p)) ks) k = Some (f k)"
    using assms(2) by (induction ks) auto
  have d: "distinct (map fst (map (\<lambda>p. (p, f p)) ks))"
    using assms(1) by (simp add: comp_def)
  have i: "k \<in> fst ` set (map (\<lambda>p. (p, f p)) ks)"
    using assms(2) by force
  show ?thesis
    by (simp add: dict_add_def m update_present [OF d i] comp_def)
qed

section \<open>The transition model in closed form\<close>

lemma add_links_closed:
  "distinct ks \<Longrightarrow> set links \<subseteq> set ks \<Longrightarrow>
   add_links (map (\<lambda>p. (p, f p)) ks) links x =
     Inr (map (\<lambda>p. (p, f p + real (count_list links p) * x)) ks)"
proof (induction links arbitrary: f)
  case Nil
  then show ?case by simp
next
  case (Cons l links)
  have "add_links (map (\<lambda>p. (p, f p)) ks) (l # links) x =
        add_links (map (\<lambda>p. (p, f p + (if p = l then x else 0))) ks) links x"
    using Cons.prems by (simp add: dict_add_present)
  also have "\<dots> = Inr (map (\<lambda>p. (p, (f p + (if p = l then x else 0))
                                   + real (count_list links p) * x)) ks)"
    using Cons.prems by (intro Cons.IH) auto
  also have "\<dots> = Inr (map (\<lambda>p. (p, f p + real (count_list (l # links) p) * x)) ks)"
    by (simp add: algebra_simps)
  finally show ?case .
qed

lemma transition_model_closed:
  assumes "distinct (map fst corpus)" "map_of corpus page = Some links"
    "set links \<subseteq> fst ` set corpus"
  shows "transition_model corpus page d =
     Inr (map (\<lambda>p. (p, (1 - d) / real (length corpus)
                         + real (count_list links p) * (d / real (length links))))
            (map fst corpus))"
  using assms add_links_closed [of "map fst corpus" links "\<lambda>p. (1 - d) / real (length corpus)"]
  by (simp add: transition_model_def dict_fill_distinct)

lemma set_update_subset: "set (AList.update k v d) \<subseteq> insert (k, v) (set d)"
  by (induction d) auto

lemma set_fold_update:
  "set (fold (\<lambda>k d. AList.update k v d) ks acc) \<subseteq> set acc \<union> (\<lambda>k. (k, v)) ` set ks"
proof (induction ks arbitrary: acc)
  case Nil
  then show ?case by simp
next
  case (Cons k ks)
  show ?case
    using Cons.IH [of "AList.update k v acc"] set_update_subset [of k v acc] by auto
qed

lemma dict_fill_values: "(p, w) \<in> set (dict_fill ks v) \<Longrightarrow> w = v"
  using set_fold_update [of v ks "[]"] by (auto simp: dict_fill_def)

lemma dict_add_lower:
  assumes "dict_add k x d = Inr d'" "0 \<le> x" "\<forall>(p, v) \<in> set d. b \<le> v"
  shows "\<forall>(p, v) \<in> set d'. b \<le> v"
proof -
  obtain v where v: "map_of d k = Some v" and d': "d' = AList.update k (v + x) d"
    using assms(1) by (auto simp: dict_add_def split: option.splits)
  have "(k, v) \<in> set d" using v by (rule map_of_SomeD)
  then have "b \<le> v + x" using assms(2,3) by fastforce
  then show ?thesis
    using set_update_subset [of k "v + x" d] assms(3) unfolding d' by auto
qed

lemma dict_add_keys:
  assumes "dict_add k x d = Inr d'"
  shows "map fst d' = map fst d"
proof -
  obtain v where v: "map_of d k = Some v" and d': "d' = AList.update k (v + x) d"
    using assms by (auto simp: dict_add_def split: option.splits)
  have "(k, v) \<in> set d" using v by (rule map_of_SomeD)
  then have "k \<in> set (map fst d)" by force
  then show ?thesis by (simp add: d' update_keys)
qed

lemma keys_dict_fill: "distinct ks \<Longrightarrow> map fst (dict_fill ks v) = ks"
  by (simp add: dict_fill_distinct comp_def)

lemma sum_list_indicator:
  "distinct ks \<Longrightarrow> l \<in> set ks \<Longrightarrow> (\<Sum>p\<leftarrow>ks. if p = l then 1 else 0) = (1::nat)"
proof (induction ks)
  case Nil
  then show ?case by simp
next
  case (Cons k ks)
  show ?case
  proof (cases "k = l")
    case True
    then have "l \<notin> set ks" using Cons.prems by auto
    then have "(\<Sum>p\<leftarrow>ks. if p = l then 1 else 0) = (0::nat)"
      by (induction ks) auto
    with True show ?thesis by simp
  next
    case False
    then show ?thesis using Cons by auto
  qed
qed

lemma sum_list_count_list:
  "distinct ks \<Longrightarrow> set links \<subseteq> set ks \<Longrightarrow> (\<Sum>p\<leftarrow>ks. count_list links p) = length links"
proof (induction links)
  case Nil
  then show ?case by simp
next
  case (Cons l links)
  have "(\<Sum>p\<leftarrow>ks. count_list (l # links) p)
      = (\<Sum>p\<leftarrow>ks. count_list links p + (if p = l then 1 else 0))"
    by (rule arg_cong [where f = sum_list]) (auto intro!: map_cong)
  also have "\<dots> = (\<Sum>p\<leftarrow>ks. count_list links p) + (\<Sum>p\<leftarrow>ks. if p = l then 1 else 0)"
    by (simp add: sum_list_addf)
  also have "\<dots> = length links + 1"
    using Cons sum_list_indicator [of ks l] by simp
  finally show ?case by simp
qed

lemma sum_list_affine:
  "(\<Sum>p\<leftarrow>ks. b + real (c p) * x) = real (length ks) * b + real (\<Sum>p\<leftarrow>ks. c p) * x"
  by (induction ks) (simp_all add: algebra_simps)

section \<open>Properties of the transition model\<close>

lemma add_links_lower:
  "add_links prob links x = Inr prob' \<Longrightarrow> 0 \<le> x \<Longrightarrow> \<forall>(p, v) \<in> set prob. b \<le> v
   \<Longrightarrow> \<forall>(p, v) \<in> set prob'. b \<le> v"
proof (induction links arbitrary: prob)
  case Nil
  then show ?case by simp
next
  case (Cons l links)
  from Cons.prems(1) obtain prob1 where 1: "dict_add l x prob = Inr prob1"
    and 2: "add_links prob1 links x = Inr prob'"
    by (auto split: sum.splits)
  show ?case
    using Cons.IH [OF 2 Cons.prems(2) dict_add_lower [OF 1 Cons.prems(2,3)]] .
qed

lemma add_links_keys:
  "add_links prob links x = Inr prob' \<Longrightarrow> map fst prob' = map fst prob"
proof (induction links arbitrary: prob)
  case Nil
  then show ?case by simp
next
  case (Cons l links)
  then show ?case by (auto split: sum.splits dest: dict_add_keys)
qed

lemma valid_corpus_links:
  assumes "valid_corpus corpus" "map_of corpus page = Some links"
  shows "set links \<subseteq> fst ` set corpus"
proof -
  have "(page, links) \<in> set corpus" using assms(2) by (rule map_of_SomeD)
  then show ?thesis using assms(1) by (fastforce simp: valid_corpus_def list_all_iff)
qed

lemma map_of_key: "page \<in> fst ` set corpus \<Longrightarrow> \<exists>links. map_of corpus page = Some links"
  by (cases "map_of corpus page") (auto simp: map_of_eq_None_iff)

lemma transition_model_keys:
  assumes "distinct (map fst corpus)" "transition_model corpus page d = Inr prob"
  shows "map fst prob = map fst corpus"
  using assms
  by (auto simp: transition_model_def dict_fill_distinct comp_def split: option.splits dest!: add_links_keys)

lemma transition_model_lower:
  assumes "transition_model corpus page d = Inr prob" "0 \<le> d" "(p, v) \<in> set prob"
  shows "(1 - d) / real (length corpus) \<le> v"
proof -
  obtain links where "add_links (dict_fill (map fst corpus) ((1 - d) / real (length corpus))) links
      (d / real (length links)) = Inr prob"
    using assms(1) by (auto simp: transition_model_def split: option.splits)
  moreover have "0 \<le> d / real (length links)" using assms(2) by simp
  moreover have "\<forall>(p, v) \<in> set (dict_fill (map fst corpus) ((1 - d) / real (length corpus))).
      (1 - d) / real (length corpus) \<le> v"
    by (auto dest: dict_fill_values)
  ultimately have "\<forall>(p, v) \<in> set prob. (1 - d) / real (length corpus) \<le> v"
    by (rule add_links_lower)
  then show ?thesis using assms(3) by auto
qed

lemma transition_model_total:
  assumes "valid_corpus corpus" "page \<in> fst ` set corpus"
  shows "\<exists>prob. transition_model corpus page d = Inr prob"
proof -
  obtain links where links: "map_of corpus page = Some links"
    using map_of_key [OF assms(2)] by blast
  show ?thesis
    using transition_model_closed [OF _ links valid_corpus_links [OF assms(1) links]] assms(1)
    by (auto simp: valid_corpus_def is_corpus_def)
qed

lemma transition_model_dangling:
  assumes "distinct (map fst corpus)" "map_of corpus page = Some []"
  shows "transition_model corpus page d
    = Inr (map (\<lambda>p. (p, (1 - d) / real (length corpus))) (map fst corpus))"
  using transition_model_closed [OF assms(1,2), of d] by simp

lemma transition_model_sum_dangling:
  assumes "distinct (map fst corpus)" "map_of corpus page = Some []"
    "transition_model corpus page d = Inr prob"
  shows "sum_list (map snd prob) = 1 - d"
proof -
  have "corpus \<noteq> []" using assms(2) by auto
  then show ?thesis
    using assms(3) unfolding transition_model_dangling [OF assms(1,2)]
    by (auto simp: comp_def sum_list_triv)
qed

lemma transition_model_sum_linked:
  assumes "is_corpus corpus" "map_of corpus page = Some links" "links \<noteq> []"
    "set links \<subseteq> fst ` set corpus" "transition_model corpus page d = Inr prob"
  shows "sum_list (map snd prob) = 1"
proof -
  have dk: "distinct (map fst corpus)" using assms(1) by (simp add: is_corpus_def)
  have ne: "corpus \<noteq> []" using assms(2) by auto
  have sub: "set links \<subseteq> set (map fst corpus)" using assms(4) by simp
  have "sum_list (map snd prob) =
     (\<Sum>p\<leftarrow>map fst corpus. (1 - d) / real (length corpus)
          + real (count_list links p) * (d / real (length links)))"
    using assms(5) unfolding transition_model_closed [OF dk assms(2,4)]
    by (auto simp: comp_def)
  also have "\<dots> = real (length corpus) * ((1 - d) / real (length corpus))
       + real (length links) * (d / real (length links))"
    by (simp only: sum_list_affine sum_list_count_list [OF dk sub] length_map)
  also have "\<dots> = 1" using ne assms(3) by simp
  finally show ?thesis .
qed

section \<open>Double-precision arithmetic\<close>

lemma exponent_of_unfold:
  "0 < fuel \<Longrightarrow> exponent_of fuel x =
     (if 2 \<le> x then exponent_of (fuel - 1) (x / 2) + 1
      else if x < 1 then exponent_of (fuel - 1) (x * 2) - 1
      else 0)"
  by (cases fuel) simp_all

text \<open>The equations that evaluate a rounding on a concrete number.\<close>

lemmas eval_double = float_round_def round_half_even_def exponent_of_unfold Let_def

lemma round_half_even_close: "\<bar>of_int (round_half_even y) - y\<bar> \<le> 1 / 2"
  unfolding round_half_even_def Let_def by (simp; linarith)

lemma exponent_of_bounds:
  "2 powi (- int fuel) \<le> x \<Longrightarrow> x < 2 ^ (fuel + 1) \<Longrightarrow>
   2 powi (exponent_of fuel x) \<le> x \<and> x < 2 powi (exponent_of fuel x + 1)"
proof (induction fuel arbitrary: x)
  case 0
  then show ?case by simp
next
  case (Suc fuel)
  have low: "(2::real) powi (- int fuel) \<le> 1"
    by (simp add: power_int_minus inverse_le_1_iff)
  show ?case
  proof (cases "2 \<le> x")
    case True
    have "2 powi (- int fuel) \<le> x / 2" using True low by simp
    moreover have "x / 2 < 2 ^ (fuel + 1)" using Suc.prems(2) by simp
    ultimately have "2 powi (exponent_of fuel (x / 2)) \<le> x / 2
        \<and> x / 2 < 2 powi (exponent_of fuel (x / 2) + 1)"
      by (rule Suc.IH)
    then show ?thesis using True by (simp add: power_int_add)
  next
    case False
    show ?thesis
    proof (cases "x < 1")
      case True
      have "- int (Suc fuel) = - int fuel - 1" by simp
      then have "(2::real) powi (- int (Suc fuel)) = 2 powi (- int fuel - 1)"
        by (rule arg_cong)
      also have "\<dots> = 2 powi (- int fuel) / 2"
        by (subst power_int_diff) simp_all
      finally have "(2::real) powi (- int (Suc fuel)) = 2 powi (- int fuel) / 2" .
      then have "2 powi (- int fuel) \<le> x * 2" using Suc.prems(1) by simp
      moreover have "x * 2 < 2 ^ (fuel + 1)"
      proof -
        have "x * 2 < 2" using True by simp
        also have "(2::real) \<le> 2 ^ (fuel + 1)" by simp
        finally show ?thesis .
      qed
      ultimately have "2 powi (exponent_of fuel (x * 2)) \<le> x * 2
          \<and> x * 2 < 2 powi (exponent_of fuel (x * 2) + 1)"
        by (rule Suc.IH)
      then show ?thesis using True False by (simp add: power_int_diff power_int_add)
    next
      case False
      with \<open>\<not> 2 \<le> x\<close> show ?thesis by simp
    qed
  qed
qed

lemma float_round_close:
  "\<bar>float_round x - x\<bar> \<le> 2 powi (max (exponent_of 2200 \<bar>x\<bar>) (- 1022) - 52) / 2"
proof (cases "x = 0")
  case True
  then show ?thesis by (simp add: float_round_def)
next
  case False
  let ?q = "(2::real) powi (max (exponent_of 2200 \<bar>x\<bar>) (- 1022) - 52)"
  have q: "0 < ?q" by simp
  have "float_round x - x = (of_int (round_half_even (x / ?q)) - x / ?q) * ?q"
    using q False by (simp add: float_round_def Let_def field_simps)
  then have "\<bar>float_round x - x\<bar> = \<bar>of_int (round_half_even (x / ?q)) - x / ?q\<bar> * ?q"
    using q by (simp add: abs_mult)
  also have "\<dots> \<le> 1 / 2 * ?q"
    using round_half_even_close [of "x / ?q"] q by (intro mult_right_mono) simp_all
  finally show ?thesis by simp
qed

text \<open>The doubles nearest to \<open>0.05\<close> and \<open>0.475\<close>.\<close>

lemma float_literals: "float_round (5 / 100) = 7205759403792794 / 2 ^ 57"
  "float_round (475 / 1000) = 8556839292003942 / 2 ^ 54"
  by (simp_all add: eval_double)

lemma transition_model_double_value:
  "transition_model_double example_corpus ''1.html'' (float_round (85 / 100))
     = Inr [(''1.html'', 7205759403792795 / 2 ^ 57), (''2.html'', 8556839292003942 / 2 ^ 54),
            (''3.html'', 8556839292003942 / 2 ^ 54)]"
  by (simp add: transition_model_double_def dict_fill_def dict_add_double_def example_corpus_def
      eval_double)

section \<open>The claims about the transition model\<close>

text \<open>
  C8, as the code has it. On the corpus
  \<open>{1.html: {2.html, 3.html}, 2.html: {3.html}, 3.html: {2.html}}\<close>, from the page
  \<open>1.html\<close> and with damping factor \<open>0.85\<close>, the transition model returns
  \<open>{1.html: 0.05, 2.html: 0.475, 3.html: 0.475}\<close> in exact arithmetic. In the double
  precision of the code it returns \<open>7205759403792795/2\<^sup>5\<^sup>7\<close> (printed
  \<open>0.05000000000000001\<close>) for \<open>1.html\<close> and \<open>8556839292003942/2\<^sup>5\<^sup>4\<close> (the double
  \<open>0.475\<close>) for the two others: within \<open>10\<^sup>-\<^sup>1\<^sup>7\<close> and \<open>10\<^sup>-\<^sup>1\<^sup>6\<close> of the exact values.
\<close>

theorem transition_model_example:
  "transition_model example_corpus ''1.html'' (85 / 100)
     = Inr [(''1.html'', 5 / 100), (''2.html'', 475 / 1000), (''3.html'', 475 / 1000)]
   \<and> transition_model_double example_corpus ''1.html'' (float_round (85 / 100))
     = Inr [(''1.html'', 7205759403792795 / 2 ^ 57), (''2.html'', 8556839292003942 / 2 ^ 54),
            (''3.html'', 8556839292003942 / 2 ^ 54)]
   \<and> \<bar>7205759403792795 / 2 ^ 57 - 5 / 100\<bar> \<le> (1 / 10 ^ 17 :: real)
   \<and> \<bar>8556839292003942 / 2 ^ 54 - 475 / 1000\<bar> \<le> (1 / 10 ^ 16 :: real)"
proof (intro conjI)
  show "transition_model example_corpus ''1.html'' (85 / 100)
     = Inr [(''1.html'', 5 / 100), (''2.html'', 475 / 1000), (''3.html'', 475 / 1000)]"
    by (simp add: transition_model_def dict_fill_def dict_add_def example_corpus_def)
  show "transition_model_double example_corpus ''1.html'' (float_round (85 / 100))
     = Inr [(''1.html'', 7205759403792795 / 2 ^ 57), (''2.html'', 8556839292003942 / 2 ^ 54),
            (''3.html'', 8556839292003942 / 2 ^ 54)]"
    by (rule transition_model_double_value)
  show "\<bar>7205759403792795 / 2 ^ 57 - 5 / 100\<bar> \<le> (1 / 10 ^ 17 :: real)" by simp
  show "\<bar>8556839292003942 / 2 ^ 54 - 475 / 1000\<bar> \<le> (1 / 10 ^ 16 :: real)" by simp
qed

text \<open>
  C8, as claimed, fails: what the code returns in double precision is not the mapping
  \<open>{1.html: 0.05, 2.html: 0.475, 3.html: 0.475}\<close> of doubles. The entry of \<open>1.html\<close>
  is the double next above \<open>0.05\<close>: \<open>1 - 0.85\<close> is \<open>0.15000000000000002\<close> in doubles, and
  a third of it rounds up.
\<close>

theorem transition_model_double_counterexample:
  "transition_model_double example_corpus ''1.html'' (float_round (85 / 100))
     \<noteq> Inr [(''1.html'', float_round (5 / 100)), (''2.html'', float_round (475 / 1000)),
             (''3.html'', float_round (475 / 1000))]"
  unfolding transition_model_double_value float_literals by simp

text \<open>
  C1. The claim: from a page without links the transition model returns the uniform
  distribution, \<open>1/N\<close> for every page. The code does not: the second loop of
  \<^verbatim>\<open>transition_model\<close> has nothing to run over, so every page keeps the base mass
  \<open>(1 - damping_factor)/N\<close> (lemma \<open>transition_model_dangling\<close>). On a corpus of two
  pages with damping factor \<open>0.85\<close> every page gets \<open>0.075\<close> where the claim says
  \<open>0.5\<close>.
\<close>

theorem transition_model_dangling_not_uniform:
  "valid_corpus dangling_corpus \<and>
   transition_model dangling_corpus ''1.html'' (85 / 100)
     = Inr [(''1.html'', 3 / 40), (''2.html'', 3 / 40)]"
  by (simp add: valid_corpus_def is_corpus_def transition_model_def dict_fill_def dict_add_def
      dangling_corpus_def)

text \<open>
  C2. The claim: the distribution has one entry for each page and its values sum to 1.
  The entries are as claimed (lemma \<open>transition_model_keys\<close>) and the sum is 1 from a
  page that has links (lemma \<open>transition_model_sum_linked\<close>), but from a page without
  links the values sum to \<open>1 - damping_factor\<close> (lemma
  \<open>transition_model_sum_dangling\<close>): here to \<open>0.15\<close>.
\<close>

theorem transition_model_dangling_sum:
  "\<exists>prob. transition_model dangling_corpus ''1.html'' (85 / 100) = Inr prob
     \<and> prob = [(''1.html'', 3 / 40), (''2.html'', 3 / 40)]
     \<and> map fst prob = map fst dangling_corpus
     \<and> sum_list (map snd prob) = 15 / 100"
  by (simp add: transition_model_def dict_fill_def dict_add_def dangling_corpus_def)

text \<open>
  C9. For a corpus, a page that is one of its keys and a damping factor \<open>d\<close> in
  \<open>(0, 1)\<close>, every value of the distribution that the transition model returns is at
  least \<open>(1 - d)/N\<close>, and so positive; and on a corpus whose links all point into the
  corpus the transition model does return a distribution.
\<close>

theorem transition_model_lower_bound:
  assumes "is_corpus corpus" "page \<in> fst ` set corpus" "0 < d" "d < 1"
  shows "(\<forall>prob. transition_model corpus page d = Inr prob \<longrightarrow>
            (\<forall>(p, v) \<in> set prob. (1 - d) / real (length corpus) \<le> v \<and> 0 < v))
       \<and> (valid_corpus corpus \<longrightarrow> (\<exists>prob. transition_model corpus page d = Inr prob))"
proof (intro conjI allI impI)
  fix prob
  assume tm: "transition_model corpus page d = Inr prob"
  have "corpus \<noteq> []" using assms(2) by auto
  then have pos: "0 < (1 - d) / real (length corpus)" using assms(4) by simp
  show "\<forall>(p, v) \<in> set prob. (1 - d) / real (length corpus) \<le> v \<and> 0 < v"
  proof (clarify, rule conjI)
    fix p v
    assume "(p, v) \<in> set prob"
    then show le: "(1 - d) / real (length corpus) \<le> v"
      using transition_model_lower [OF tm] assms(3) by simp
    show "0 < v" using pos le by linarith
  qed
next
  assume valid: "valid_corpus corpus"
  obtain links where links: "map_of corpus page = Some links"
    using map_of_key [OF assms(2)] by blast
  show "\<exists>prob. transition_model corpus page d = Inr prob"
    using transition_model_closed [OF _ links valid_corpus_links [OF valid links]] assms(1)
    by (auto simp: is_corpus_def)
qed

theorem transition_model_lower_bound_witness:
  "is_corpus example_corpus \<and> valid_corpus example_corpus
   \<and> ''1.html'' \<in> fst ` set example_corpus \<and> (0::real) < 85 / 100 \<and> (85 / 100 :: real) < 1
   \<and> transition_model example_corpus ''1.html'' (85 / 100)
       = Inr [(''1.html'', 5 / 100), (''2.html'', 475 / 1000), (''3.html'', 475 / 1000)]
   \<and> (1 - 85 / 100) / real (length example_corpus) \<le> (5 / 100 :: real) \<and> (0 :: real) < 5 / 100"
proof -
  have c: "is_corpus example_corpus" by (simp add: is_corpus_def example_corpus_def)
  have v: "valid_corpus example_corpus" by (simp add: valid_corpus_def c) (simp add: example_corpus_def)
  have k: "''1.html'' \<in> fst ` set example_corpus" by (simp add: example_corpus_def)
  have tm: "transition_model example_corpus ''1.html'' (85 / 100)
       = Inr [(''1.html'', 5 / 100), (''2.html'', 475 / 1000), (''3.html'', 475 / 1000)]"
    by (simp add: transition_model_def dict_fill_def dict_add_def example_corpus_def)
  have "\<forall>(p, v) \<in> set [(''1.html'', 5 / 100 :: real), (''2.html'', 475 / 1000), (''3.html'', 475 / 1000)].
      (1 - 85 / 100) / real (length example_corpus) \<le> v \<and> 0 < v"
    using transition_model_lower_bound [OF c k, of "85 / 100"] tm by simp
  then show ?thesis using c v k tm by simp
qed

section \<open>The random source\<close>

lemma length_accumulate: "length (accumulate a ws) = length ws"
  by (induction ws arbitrary: a) auto

lemma last_accumulate: "ws \<noteq> [] \<Longrightarrow> last (accumulate a ws) = a + sum_list ws"
proof (induction ws arbitrary: a)
  case Nil
  then show ?case by simp
next
  case (Cons w ws)
  then show ?case by (cases ws) (auto simp: algebra_simps)
qed

lemma bisect_le: "lo \<le> hi \<Longrightarrow> bisect a x lo hi \<le> hi"
proof (induction a x lo hi rule: bisect.induct)
  case (1 a x lo hi)
  show ?case
  proof (cases "lo < hi")
    case True
    let ?mid = "(lo + hi) div 2"
    have m: "lo \<le> ?mid" "?mid < hi" "?mid + 1 \<le> hi" using True by auto
    show ?thesis
    proof (cases "x < a ! ?mid")
      case t: True
      have "bisect a x lo ?mid \<le> ?mid" using "1.IH"(1) [OF True refl t m(1)] .
      then show ?thesis using True t m by (subst bisect.simps) (simp add: Let_def)
    next
      case f: False
      have "bisect a x (?mid + 1) hi \<le> hi" using "1.IH"(2) [OF True refl f m(3)] .
      then show ?thesis using True f by (subst bisect.simps) (simp add: Let_def)
    qed
  next
    case False
    then show ?thesis using "1.prems" by (subst bisect.simps) simp
  qed
qed

lemma random_choices_mem:
  assumes "random_choices r population weights = Inr p"
  shows "p \<in> set population"
proof -
  let ?cum = "accumulate 0 weights"
  have len: "length ?cum = length population" and ne: "?cum \<noteq> []"
    and p: "p = population ! bisect ?cum (random_unit r * last ?cum) 0 (length population - 1)"
    using assms by (auto simp: random_choices_def Let_def split: if_splits)
  have "population \<noteq> []" using len ne by auto
  moreover have "bisect ?cum (random_unit r * last ?cum) 0 (length population - 1)
      \<le> length population - 1"
    by (rule bisect_le) simp
  ultimately show ?thesis unfolding p by (intro nth_mem) (cases population, auto)
qed

lemma sum_list_pos_real:
  fixes ws :: "real list"
  shows "ws \<noteq> [] \<Longrightarrow> \<forall>w \<in> set ws. 0 < w \<Longrightarrow> 0 < sum_list ws"
proof (induction ws)
  case Nil
  then show ?case by simp
next
  case (Cons w ws)
  then show ?case by (cases ws) (auto intro: add_pos_pos)
qed

lemma random_choices_total:
  assumes "length weights = length population" "population \<noteq> []" "\<forall>w \<in> set weights. 0 < w"
  shows "\<exists>p. random_choices r population weights = Inr p"
proof -
  have ne: "weights \<noteq> []" using assms(1,2) by auto
  have "0 < last (accumulate 0 weights)"
    using sum_list_pos_real [OF ne assms(3)] by (simp add: last_accumulate [OF ne])
  moreover have "accumulate 0 weights \<noteq> []"
    using ne length_accumulate [of 0 weights] by auto
  ultimately show ?thesis
    using assms(1) by (simp add: random_choices_def Let_def length_accumulate)
qed

lemma random_choice_mem: "random_choice r seq = Inr p \<Longrightarrow> p \<in> set seq"
  by (auto simp: random_choice_def split: if_splits)

section \<open>Properties of the sampling ranker\<close>

lemma count_visit_Inr:
  "count_visit n page prank = Inr prank' \<Longrightarrow> n \<noteq> 0 \<and> dict_add page (1 / real_of_int n) prank = Inr prank'"
  by (auto simp: count_visit_def dict_add_def split: option.splits if_splits)

lemma count_visit_dict_add:
  "n \<noteq> 0 \<Longrightarrow> count_visit n page prank = dict_add page (1 / real_of_int n) prank"
  by (auto simp: count_visit_def dict_add_def split: option.splits)

lemma count_visit_closed:
  assumes "distinct ks" "page \<in> set ks" "n \<noteq> 0"
  shows "count_visit n page (map (\<lambda>p. (p, real (c p) / real_of_int n)) ks)
    = Inr (map (\<lambda>p. (p, real (c p + (if p = page then 1 else 0)) / real_of_int n)) ks)"
proof -
  have "count_visit n page (map (\<lambda>p. (p, real (c p) / real_of_int n)) ks)
    = Inr (map (\<lambda>p. (p, real (c p) / real_of_int n + (if p = page then 1 / real_of_int n else 0))) ks)"
    using assms by (simp add: count_visit_dict_add dict_add_present)
  also have "\<dots> = Inr (map (\<lambda>p. (p, real (c p + (if p = page then 1 else 0)) / real_of_int n)) ks)"
    by (simp add: add_divide_distrib)
  finally show ?thesis .
qed

lemma sample_loop_counts:
  assumes dk: "distinct (map fst corpus)"
  shows "page \<in> fst ` set corpus \<Longrightarrow>
     sample_loop corpus d n rnd k i page
        (map (\<lambda>p. (p, real (c p) / real_of_int n)) (map fst corpus)) = Inr prank \<Longrightarrow>
     \<exists>walk. walk_loop corpus d rnd k i page = Inr walk \<and> length walk = k \<and>
        set walk \<subseteq> fst ` set corpus \<and>
        prank = map (\<lambda>p. (p, real (c p + count_list walk p) / real_of_int n)) (map fst corpus)"
proof (induction k arbitrary: i page c)
  case 0
  then show ?case by simp
next
  case (Suc k)
  let ?ks = "map fst corpus"
  from Suc.prems(2) obtain distribution page' prank1 where
    tm: "transition_model corpus page d = Inr distribution" and
    rc: "random_choices (rnd i) (map fst distribution) (map snd distribution) = Inr page'" and
    cv: "count_visit n page' (map (\<lambda>p. (p, real (c p) / real_of_int n)) ?ks) = Inr prank1" and
    loop: "sample_loop corpus d n rnd k (Suc i) page' prank1 = Inr prank"
    by (auto split: sum.splits)
  have mem: "page' \<in> set ?ks"
    using random_choices_mem [OF rc] transition_model_keys [OF dk tm] by simp
  have n0: "n \<noteq> 0" using count_visit_Inr [OF cv] by simp
  have prank1: "prank1 = map (\<lambda>p. (p, real (c p + (if p = page' then 1 else 0)) / real_of_int n)) ?ks"
    using cv count_visit_closed [OF dk mem n0, of c] by simp
  have mem': "page' \<in> fst ` set corpus" using mem by simp
  obtain walk where w: "walk_loop corpus d rnd k (Suc i) page' = Inr walk" "length walk = k"
    "set walk \<subseteq> fst ` set corpus"
    "prank = map (\<lambda>p. (p, real (c p + (if p = page' then 1 else 0) + count_list walk p)
        / real_of_int n)) ?ks"
    using Suc.IH [OF mem' loop [unfolded prank1]] by blast
  have "walk_loop corpus d rnd (Suc k) i page = Inr (page' # walk)"
    using tm rc w(1) by simp
  moreover have "prank = map (\<lambda>p. (p, real (c p + count_list (page' # walk) p) / real_of_int n)) ?ks"
    unfolding w(4) by (intro map_cong refl) (auto simp: algebra_simps)
  ultimately show ?case using w(2,3) mem' by simp
qed

lemma sample_loop_total:
  assumes valid: "valid_corpus corpus" and d: "0 < d" "d < 1" and n: "n \<noteq> 0"
  shows "page \<in> fst ` set corpus \<Longrightarrow>
     \<exists>prank'. sample_loop corpus d n rnd k i page
        (map (\<lambda>p. (p, real (c p) / real_of_int n)) (map fst corpus)) = Inr prank'"
proof (induction k arbitrary: i page c)
  case 0
  then show ?case by simp
next
  case (Suc k)
  let ?ks = "map fst corpus"
  have dk: "distinct ?ks" using valid by (simp add: valid_corpus_def is_corpus_def)
  have ne: "corpus \<noteq> []" using Suc.prems by auto
  obtain distribution where tm: "transition_model corpus page d = Inr distribution"
    using transition_model_total [OF valid Suc.prems] by blast
  have keys: "map fst distribution = ?ks" using transition_model_keys [OF dk tm] .
  have "0 < (1 - d) / real (length corpus)" using d ne by simp
  then have "\<forall>w \<in> set (map snd distribution). 0 < w"
    using transition_model_lower [OF tm] d(1) by fastforce
  moreover have "length (map snd distribution) = length (map fst distribution)" by simp
  moreover have "map fst distribution \<noteq> []" using keys ne by simp
  ultimately obtain page' where
    rc: "random_choices (rnd i) (map fst distribution) (map snd distribution) = Inr page'"
    using random_choices_total by blast
  have mem: "page' \<in> set ?ks" using random_choices_mem [OF rc] keys by simp
  then have mem': "page' \<in> fst ` set corpus" by simp
  obtain prank' where "sample_loop corpus d n rnd k (Suc i) page'
      (map (\<lambda>p. (p, real (c p + (if p = page' then 1 else 0)) / real_of_int n)) ?ks) = Inr prank'"
    using Suc.IH [OF mem', where c = "\<lambda>p. c p + (if p = page' then 1 else 0)"] by blast
  then show ?case
    using tm rc count_visit_closed [OF dk mem n, of c] by simp
qed

lemma dict_fill_zero:
  "distinct ks \<Longrightarrow> dict_fill ks 0 = map (\<lambda>p. (p, real (0::nat) / real_of_int n)) ks"
  by (simp add: dict_fill_distinct)

lemma sample_pagerank_counts_aux:
  assumes dk: "distinct (map fst corpus)" and s: "sample_pagerank corpus d n rnd = Inr prank"
  shows "\<exists>walk. sample_walk corpus d n rnd = Inr walk \<and> length walk = nat n + 1 \<and>
           set walk \<subseteq> fst ` set corpus \<and>
           prank = map (\<lambda>p. (p, real (count_list walk p) / real_of_int n)) (map fst corpus)"
proof -
  let ?ks = "map fst corpus"
  from s obtain page prank1 where
    ch: "random_choice (rnd 0) ?ks = Inr page" and
    cv: "count_visit n page (dict_fill ?ks 0) = Inr prank1" and
    loop: "sample_loop corpus d n rnd (nat n) 1 page prank1 = Inr prank"
    by (auto simp: sample_pagerank_def split: sum.splits)
  have mem: "page \<in> set ?ks" using random_choice_mem [OF ch] .
  have n0: "n \<noteq> 0" using count_visit_Inr [OF cv] by simp
  have prank1: "prank1 = map (\<lambda>p. (p, real (0 + (if p = page then 1 else 0)) / real_of_int n)) ?ks"
    using cv count_visit_closed [OF dk mem n0, of "\<lambda>p. 0"]
    unfolding dict_fill_zero [OF dk, of n] by simp
  have mem': "page \<in> fst ` set corpus" using mem by simp
  obtain walk where w: "walk_loop corpus d rnd (nat n) 1 page = Inr walk" "length walk = nat n"
    "set walk \<subseteq> fst ` set corpus"
    "prank = map (\<lambda>p. (p, real (0 + (if p = page then 1 else 0) + count_list walk p)
        / real_of_int n)) ?ks"
    using sample_loop_counts [OF dk mem' loop [unfolded prank1]] by blast
  have "sample_walk corpus d n rnd = Inr (page # walk)"
    using ch w(1) by (simp add: sample_walk_def)
  moreover have "prank = map (\<lambda>p. (p, real (count_list (page # walk) p) / real_of_int n)) ?ks"
    unfolding w(4) by (intro map_cong refl) (auto simp: algebra_simps)
  ultimately show ?thesis using w(2,3) mem' by simp
qed

lemma sample_pagerank_total:
  assumes valid: "valid_corpus corpus" and ne: "corpus \<noteq> []" and d: "0 < d" "d < 1" and n: "n \<noteq> 0"
  shows "\<exists>prank. sample_pagerank corpus d n rnd = Inr prank"
proof -
  let ?ks = "map fst corpus"
  have dk: "distinct ?ks" using valid by (simp add: valid_corpus_def is_corpus_def)
  obtain page where ch: "random_choice (rnd 0) ?ks = Inr page"
    using ne by (simp add: random_choice_def)
  have mem: "page \<in> set ?ks" using random_choice_mem [OF ch] .
  then have mem': "page \<in> fst ` set corpus" by simp
  obtain prank where "sample_loop corpus d n rnd (nat n) 1 page
      (map (\<lambda>p. (p, real (0 + (if p = page then 1 else 0)) / real_of_int n)) ?ks) = Inr prank"
    using sample_loop_total [OF valid d n mem', where c = "\<lambda>p. 0 + (if p = page then 1 else 0)"]
    by blast
  then show ?thesis
    using ch count_visit_closed [OF dk mem n, of "\<lambda>p. 0"]
    unfolding sample_pagerank_def dict_fill_zero [OF dk, of n] by simp
qed

lemma sum_list_divide:
  "(\<Sum>p\<leftarrow>ks. real (c p) / x) = real (\<Sum>p\<leftarrow>ks. c p) / x"
  by (induction ks) (simp_all add: add_divide_distrib)

lemma sample_pagerank_sum:
  assumes "is_corpus corpus" "sample_pagerank corpus d n rnd = Inr prank"
  shows "sum_list (map snd prank) = (real (nat n) + 1) / real_of_int n"
proof -
  have dk: "distinct (map fst corpus)" using assms(1) by (simp add: is_corpus_def)
  obtain walk where w: "length walk = nat n + 1" "set walk \<subseteq> fst ` set corpus"
    "prank = map (\<lambda>p. (p, real (count_list walk p) / real_of_int n)) (map fst corpus)"
    using sample_pagerank_counts_aux [OF dk assms(2)] by blast
  have sub: "set walk \<subseteq> set (map fst corpus)" using w(2) by simp
  have "sum_list (map snd prank)
      = (\<Sum>p\<leftarrow>map fst corpus. real (count_list walk p) / real_of_int n)"
    unfolding w(3) by (simp add: comp_def)
  also have "\<dots> = real (length walk) / real_of_int n"
    by (simp only: sum_list_divide sum_list_count_list [OF dk sub])
  finally show ?thesis using w(1) by simp
qed

text \<open>The equations that evaluate the sampling ranker on a concrete input.\<close>

lemmas eval_sample = sample_pagerank_def sample_walk_def random_choice_def count_visit_def
  transition_model_def dict_fill_def dict_add_def random_choices_def random_unit_def bisect.simps

section \<open>The claims about the sampling ranker\<close>

text \<open>
  C10. For a corpus and every damping factor, sample count \<open>n\<close> and random source: if
  the sampling ranker returns a mapping, its keys are the keys of the corpus, in their
  order, and the value of each page is \<open>k/n\<close>, where \<open>k\<close> is the number of times the page
  occurs among the \<open>n + 1\<close> pages that were drawn. On a non-empty corpus whose links all
  point into the corpus, with a damping factor in \<open>(0, 1)\<close> and \<open>n \<ge> 1\<close>, it does
  return a mapping.
\<close>

theorem sample_pagerank_counts:
  assumes "is_corpus corpus"
  shows "(\<forall>prank. sample_pagerank corpus d n rnd = Inr prank \<longrightarrow>
           (\<exists>walk. sample_walk corpus d n rnd = Inr walk \<and> length walk = nat n + 1 \<and>
              set walk \<subseteq> fst ` set corpus \<and>
              prank = map (\<lambda>p. (p, real (count_list walk p) / real_of_int n)) (map fst corpus)))
       \<and> (valid_corpus corpus \<and> corpus \<noteq> [] \<and> 0 < d \<and> d < 1 \<and> 1 \<le> n \<longrightarrow>
            (\<exists>prank. sample_pagerank corpus d n rnd = Inr prank))"
proof (intro conjI allI impI)
  fix prank
  assume "sample_pagerank corpus d n rnd = Inr prank"
  then show "\<exists>walk. sample_walk corpus d n rnd = Inr walk \<and> length walk = nat n + 1 \<and>
              set walk \<subseteq> fst ` set corpus \<and>
              prank = map (\<lambda>p. (p, real (count_list walk p) / real_of_int n)) (map fst corpus)"
    using sample_pagerank_counts_aux assms by (simp add: is_corpus_def)
next
  assume "valid_corpus corpus \<and> corpus \<noteq> [] \<and> 0 < d \<and> d < 1 \<and> 1 \<le> n"
  then show "\<exists>prank. sample_pagerank corpus d n rnd = Inr prank"
    using sample_pagerank_total [of corpus d n rnd] by auto
qed

theorem sample_pagerank_counts_witness:
  "is_corpus two_cycle \<and> valid_corpus two_cycle \<and> two_cycle \<noteq> []
   \<and> (0::real) < 85 / 100 \<and> (85 / 100 :: real) < 1 \<and> (1::int) \<le> 1
   \<and> sample_pagerank two_cycle (85 / 100) 1 (\<lambda>i. 0) = Inr [(''a'', 2), (''b'', 0)]
   \<and> (\<exists>walk. sample_walk two_cycle (85 / 100) 1 (\<lambda>i. 0) = Inr walk \<and> length walk = nat 1 + 1 \<and>
         set walk \<subseteq> fst ` set two_cycle \<and>
         [(''a'', 2), (''b'', 0)]
           = map (\<lambda>p. (p, real (count_list walk p) / real_of_int 1)) (map fst two_cycle))"
proof -
  have c: "is_corpus two_cycle" by (simp add: is_corpus_def two_cycle_def)
  have v: "valid_corpus two_cycle" by (simp add: valid_corpus_def is_corpus_def two_cycle_def)
  have s: "sample_pagerank two_cycle (85 / 100) 1 (\<lambda>i. 0) = Inr [(''a'', 2), (''b'', 0)]"
    by (simp add: eval_sample two_cycle_def)
  have "\<exists>walk. sample_walk two_cycle (85 / 100) 1 (\<lambda>i. 0) = Inr walk \<and> length walk = nat 1 + 1 \<and>
         set walk \<subseteq> fst ` set two_cycle \<and>
         [(''a'', 2), (''b'', 0)]
           = map (\<lambda>p. (p, real (count_list walk p) / real_of_int 1)) (map fst two_cycle)"
    using sample_pagerank_counts [OF c, of "85 / 100" 1 "\<lambda>i. 0"] s by blast
  with c v s show ?thesis by (simp add: two_cycle_def)
qed

text \<open>
  C3. The claim: the values of the mapping that the sampling ranker returns sum to 1.
  The code draws \<open>n + 1\<close> pages (one before the loop, \<open>n\<close> in it) and adds \<open>1/n\<close> for
  each, so the values sum to \<open>(n + 1)/n\<close> (lemma \<open>sample_pagerank_sum\<close>). With
  \<open>n = 2\<close> on two pages that link to each other, and a random source that always
  returns its lowest number, the result is \<open>{a: 1.5, b: 0}\<close>.
\<close>

theorem sample_pagerank_sum_example:
  "\<exists>prank. sample_pagerank two_cycle (85 / 100) 2 (\<lambda>i. 0) = Inr prank
     \<and> prank = [(''a'', 3 / 2), (''b'', 0)]
     \<and> map fst prank = map fst two_cycle
     \<and> sum_list (map snd prank) = 3 / 2"
  by (simp add: eval_sample two_cycle_def numeral_2_eq_2)

section \<open>Properties of one pass of the iterative ranker\<close>



lemma keys_pass_loop:
  "set webs \<subseteq> fst ` set rank \<Longrightarrow>
   map fst (fst (pass_loop corpus d webs rank count)) = map fst rank"
proof (induction webs arbitrary: rank count)
  case Nil
  then show ?case by simp
next
  case (Cons web webs)
  let ?prob = "(1 - d) / real (length corpus) + d * sigma_loop (length corpus) web rank corpus 0"
  have web: "web \<in> set (map fst rank)" using Cons.prems by simp
  then have keys: "map fst (AList.update web ?prob rank) = map fst rank"
    by (simp add: update_keys)
  have "set webs \<subseteq> fst ` set (AList.update web ?prob rank)"
    using Cons.prems by (auto simp: dom_update)
  from Cons.IH [OF this] keys show ?case by (simp add: Let_def)
qed

lemma keys_pass:
  assumes "map fst rank = map fst corpus"
  shows "map fst (fst (pass corpus d rank)) = map fst corpus"
proof -
  have "set (map fst corpus) \<subseteq> fst ` set rank" using assms [symmetric] by simp
  then show ?thesis unfolding pass_def using assms by (simp add: keys_pass_loop)
qed

lemma keys_ranks_after:
  "map fst rank = map fst corpus \<Longrightarrow> map fst (ranks_after corpus d k rank) = map fst corpus"
  by (induction k arbitrary: rank) (simp_all add: keys_pass)




section \<open>Properties of the loop of the iterative ranker\<close>

lemma iterate_loop_continue:
  "snd (pass corpus d rank) < length corpus \<Longrightarrow>
   iterate_loop corpus d rank = iterate_loop corpus d (fst (pass corpus d rank))"
  by (subst iterate_loop.simps) (simp add: split_beta)

lemma iterate_loop_stop:
  "length corpus \<le> snd (pass corpus d rank) \<Longrightarrow>
   iterate_loop corpus d rank = Some (fst (pass corpus d rank))"
  by (subst iterate_loop.simps) (simp add: split_beta)

lemma iterate_loop_after:
  "(\<forall>j<k. snd (pass corpus d (ranks_after corpus d j rank)) < length corpus) \<Longrightarrow>
   iterate_loop corpus d rank = iterate_loop corpus d (ranks_after corpus d k rank)"
proof (induction k arbitrary: rank)
  case 0
  then show ?case by simp
next
  case (Suc k)
  let ?rank' = "fst (pass corpus d rank)"
  have 0: "snd (pass corpus d rank) < length corpus"
    using Suc.prems [rule_format, of 0] by simp
  have "\<forall>j<k. snd (pass corpus d (ranks_after corpus d j ?rank')) < length corpus"
  proof (intro allI impI)
    fix j assume "j < k"
    then have "Suc j < Suc k" by simp
    from Suc.prems [rule_format, OF this]
    show "snd (pass corpus d (ranks_after corpus d j ?rank')) < length corpus" by simp
  qed
  then have ih: "iterate_loop corpus d ?rank' = iterate_loop corpus d (ranks_after corpus d k ?rank')"
    by (rule Suc.IH)
  have "iterate_loop corpus d rank = iterate_loop corpus d ?rank'"
    by (rule iterate_loop_continue [OF 0])
  also note ih
  also have "ranks_after corpus d k ?rank' = ranks_after corpus d (Suc k) rank" by simp
  finally show ?case .
qed

lemma iterate_loop_SomeD:
  assumes "iterate_loop corpus d rank = Some result"
  shows "\<exists>k. (\<forall>j<k. snd (pass corpus d (ranks_after corpus d j rank)) < length corpus)
      \<and> length corpus \<le> snd (pass corpus d (ranks_after corpus d k rank))
      \<and> result = fst (pass corpus d (ranks_after corpus d k rank))"
proof -
  let ?P = "\<lambda>c e r res. \<exists>k. (\<forall>j<k. snd (pass c e (ranks_after c e j r)) < length c)
      \<and> length c \<le> snd (pass c e (ranks_after c e k r))
      \<and> res = fst (pass c e (ranks_after c e k r))"
  have "?P corpus d rank result"
  proof (rule iterate_loop.raw_induct [where P = ?P, OF _ assms])
    fix loop :: "corpus \<Rightarrow> real \<Rightarrow> dist \<Rightarrow> dist option" and c e r res
    assume ih: "\<And>c e r res. loop c e r = Some res \<Longrightarrow> ?P c e r res"
      and step: "(case pass c e r of (rank', count) \<Rightarrow>
          if length c \<le> count then Some rank' else loop c e rank') = Some res"
    show "?P c e r res"
    proof (cases "length c \<le> snd (pass c e r)")
      case True
      then have res: "res = fst (pass c e r)" using step by (simp add: split_beta)
      have "(\<forall>j<(0::nat). snd (pass c e (ranks_after c e j r)) < length c)
        \<and> length c \<le> snd (pass c e (ranks_after c e 0 r))
        \<and> res = fst (pass c e (ranks_after c e 0 r))"
        using True res by simp
      then show ?thesis by (rule exI)
    next
      case False
      then have "loop c e (fst (pass c e r)) = Some res"
        using step by (simp add: split_beta)
      from ih [OF this] obtain k where k:
        "\<forall>j<k. snd (pass c e (ranks_after c e j (fst (pass c e r)))) < length c"
        "length c \<le> snd (pass c e (ranks_after c e k (fst (pass c e r))))"
        "res = fst (pass c e (ranks_after c e k (fst (pass c e r))))"
        by blast
      have "\<forall>j<Suc k. snd (pass c e (ranks_after c e j r)) < length c"
      proof (intro allI impI)
        fix j assume "j < Suc k"
        then show "snd (pass c e (ranks_after c e j r)) < length c"
          using False k(1) by (cases j) auto
      qed
      then have "(\<forall>j<Suc k. snd (pass c e (ranks_after c e j r)) < length c)
        \<and> length c \<le> snd (pass c e (ranks_after c e (Suc k) r))
        \<and> res = fst (pass c e (ranks_after c e (Suc k) r))"
        using k(2,3) by simp
      then show ?thesis by (rule exI)
    qed
  qed
  then show ?thesis .
qed

text \<open>The equations that evaluate a pass on a concrete input.\<close>

lemmas eval_pass = pass_def dict_fill_def rank_get_def Let_def

lemma four_pages_start:
  "pass four_pages 1 (dict_fill (map fst four_pages) (1 / real (length four_pages)))
     = ([(''a'', 1 / 2), (''b'', 1 / 4), (''c'', 1 / 2), (''x'', 0)], 1)"
  by (simp add: eval_pass four_pages_def)

lemma four_pages_odd:
  "pass four_pages 1 [(''a'', 1 / 2), (''b'', 1 / 4), (''c'', 1 / 2), (''x'', 0)]
     = ([(''a'', 1 / 4), (''b'', 1 / 2), (''c'', 1 / 4), (''x'', 0)], 1)"
  by (simp add: eval_pass four_pages_def)

lemma four_pages_even:
  "pass four_pages 1 [(''a'', 1 / 4), (''b'', 1 / 2), (''c'', 1 / 4), (''x'', 0)]
     = ([(''a'', 1 / 2), (''b'', 1 / 4), (''c'', 1 / 2), (''x'', 0)], 1)"
  by (simp add: eval_pass four_pages_def)

lemma four_pages_cycle:
  assumes "rank \<in> {dict_fill (map fst four_pages) (1 / real (length four_pages)),
      [(''a'', 1 / 2), (''b'', 1 / 4), (''c'', 1 / 2), (''x'', 0)],
      [(''a'', 1 / 4), (''b'', 1 / 2), (''c'', 1 / 4), (''x'', 0)]}"
  shows "snd (pass four_pages 1 (ranks_after four_pages 1 k rank)) = 1"
  using assms
proof (induction k arbitrary: rank)
  case 0
  then show ?case
    using four_pages_start four_pages_odd four_pages_even by auto
next
  case (Suc k)
  have "fst (pass four_pages 1 rank) \<in> {dict_fill (map fst four_pages) (1 / real (length four_pages)),
      [(''a'', 1 / 2), (''b'', 1 / 4), (''c'', 1 / 2), (''x'', 0)],
      [(''a'', 1 / 4), (''b'', 1 / 2), (''c'', 1 / 4), (''x'', 0)]}"
    using Suc.prems four_pages_start four_pages_odd four_pages_even by auto
  from Suc.IH [OF this] show ?case by simp
qed

section \<open>The claims about the iterative ranker\<close>



text \<open>
  C4. The claim: within a pass the new rank of every page is computed from the ranks as
  they stood when the pass began. The code assigns \<^verbatim>\<open>rank[web] = prob\<close> inside the
  pass, so a page that comes later in the corpus is computed from the new ranks of the
  pages before it. On three pages (\<open>a\<close> and \<open>b\<close> link to each other, \<open>c\<close> links to
  \<open>a\<close>) the first pass gives \<open>b\<close> the rank \<open>0.05 + 0.85 \<times> 37/60 = 689/1200\<close>, from the new
  rank of \<open>a\<close>; from the ranks at the start of the pass it is \<open>0.05 + 0.85/3 = 1/3\<close>.
\<close>

theorem pass_in_place_example:
  "fst (pass three_pages (85 / 100) (dict_fill (map fst three_pages) (1 / real (length three_pages))))
     = [(''a'', 37 / 60), (''b'', 689 / 1200), (''c'', 1 / 20)]
   \<and> snapshot_pass three_pages (85 / 100)
        (dict_fill (map fst three_pages) (1 / real (length three_pages)))
     = [(''a'', 37 / 60), (''b'', 1 / 3), (''c'', 1 / 20)]"
  by (simp add: eval_pass snapshot_pass_def three_pages_def)

text \<open>
  C7, as the code has it. The iterative ranker has no bound on the number of passes and
  no error for exceeding one: it returns exactly when some pass meets the convergence
  test, with the ranks of the first such pass, however many passes that takes.
\<close>

theorem iterate_loop_returns_iff:
  "iterate_loop corpus d rank = Some result \<longleftrightarrow>
     (\<exists>k. (\<forall>j<k. snd (pass corpus d (ranks_after corpus d j rank)) < length corpus)
        \<and> length corpus \<le> snd (pass corpus d (ranks_after corpus d k rank))
        \<and> result = fst (pass corpus d (ranks_after corpus d k rank)))"
proof
  assume "iterate_loop corpus d rank = Some result"
  then show "\<exists>k. (\<forall>j<k. snd (pass corpus d (ranks_after corpus d j rank)) < length corpus)
        \<and> length corpus \<le> snd (pass corpus d (ranks_after corpus d k rank))
        \<and> result = fst (pass corpus d (ranks_after corpus d k rank))"
    by (rule iterate_loop_SomeD)
next
  assume "\<exists>k. (\<forall>j<k. snd (pass corpus d (ranks_after corpus d j rank)) < length corpus)
        \<and> length corpus \<le> snd (pass corpus d (ranks_after corpus d k rank))
        \<and> result = fst (pass corpus d (ranks_after corpus d k rank))"
  then obtain k where k:
    "\<forall>j<k. snd (pass corpus d (ranks_after corpus d j rank)) < length corpus"
    "length corpus \<le> snd (pass corpus d (ranks_after corpus d k rank))"
    "result = fst (pass corpus d (ranks_after corpus d k rank))"
    by blast
  show "iterate_loop corpus d rank = Some result"
    using iterate_loop_after [OF k(1)] iterate_loop_stop [OF k(2)] k(3) by simp
qed

theorem iterate_loop_returns_iff_witness:
  "iterate_pagerank two_cycle (85 / 100) = Some [(''a'', 1 / 2), (''b'', 1 / 2)]"
proof -
  let ?r = "dict_fill (map fst two_cycle) (1 / real (length two_cycle))"
  have "(\<forall>j<(0::nat). snd (pass two_cycle (85 / 100) (ranks_after two_cycle (85 / 100) j ?r))
          < length two_cycle)
      \<and> length two_cycle \<le> snd (pass two_cycle (85 / 100) (ranks_after two_cycle (85 / 100) 0 ?r))
      \<and> [(''a'', 1 / 2), (''b'', 1 / 2)]
          = fst (pass two_cycle (85 / 100) (ranks_after two_cycle (85 / 100) 0 ?r))"
    by (simp add: eval_pass two_cycle_def)
  then have "\<exists>k. (\<forall>j<k. snd (pass two_cycle (85 / 100) (ranks_after two_cycle (85 / 100) j ?r))
          < length two_cycle)
      \<and> length two_cycle \<le> snd (pass two_cycle (85 / 100) (ranks_after two_cycle (85 / 100) k ?r))
      \<and> [(''a'', 1 / 2), (''b'', 1 / 2)]
          = fst (pass two_cycle (85 / 100) (ranks_after two_cycle (85 / 100) k ?r))"
    by (rule exI)
  then show ?thesis
    unfolding iterate_pagerank_def by (rule iterate_loop_returns_iff [THEN iffD2])
qed

text \<open>
  C7, as claimed, fails: on a valid corpus of four pages with damping factor 1 the
  ranks alternate between two states from the first pass on, only one page in four
  passes the test in any pass, and the loop never returns.
\<close>

theorem iterate_pagerank_diverges:
  "valid_corpus four_pages \<and> iterate_pagerank four_pages 1 = None"
proof
  show "valid_corpus four_pages"
    by (simp add: valid_corpus_def is_corpus_def four_pages_def)
  show "iterate_pagerank four_pages 1 = None"
  proof (rule ccontr)
    assume "iterate_pagerank four_pages 1 \<noteq> None"
    then obtain result where "iterate_loop four_pages 1
        (dict_fill (map fst four_pages) (1 / real (length four_pages))) = Some result"
      by (auto simp: iterate_pagerank_def)
    from iterate_loop_SomeD [OF this] obtain k where
      "length four_pages \<le> snd (pass four_pages 1 (ranks_after four_pages 1 k
          (dict_fill (map fst four_pages) (1 / real (length four_pages)))))"
      by blast
    moreover have "snd (pass four_pages 1 (ranks_after four_pages 1 k
          (dict_fill (map fst four_pages) (1 / real (length four_pages))))) = 1"
      by (rule four_pages_cycle) simp
    ultimately show False by (simp add: four_pages_def)
  qed
qed

text \<open>
  C5, as the code has it. On an empty corpus the sampling ranker fails with the
  \<^verbatim>\<open>IndexError\<close> of \<^verbatim>\<open>random.choice\<close>, before any division, and the iterative
  ranker returns the empty mapping: its loops have nothing to run over and the test
  \<open>count \<ge> len(corpus)\<close> is \<open>0 \<ge> 0\<close>.
\<close>

theorem empty_corpus:
  "sample_pagerank [] d n rnd = Inl IndexError \<and> iterate_pagerank [] d = Some []"
  by (simp add: sample_pagerank_def random_choice_def iterate_pagerank_def dict_fill_def
      iterate_loop.simps pass_def)

text \<open>
  C5, as claimed, fails: the iterative ranker returns normally on the empty corpus, and
  the error of the sampling ranker is an \<^verbatim>\<open>IndexError\<close>.
\<close>

theorem empty_corpus_example:
  "sample_pagerank [] (85 / 100) 1 (\<lambda>i. 0) = Inl IndexError
   \<and> iterate_pagerank [] (85 / 100) = Some []"
  by (simp add: sample_pagerank_def random_choice_def iterate_pagerank_def dict_fill_def
      iterate_loop.simps pass_def)

end
